theory Spec2Isabelle
  imports Complex_Main "HOL-Library.Multiset"
begin

section \<open>Python values and errors\<close>

text \<open>
  The development embeds \<^verbatim>\<open>main.py\<close> of the Phillies salary statistics calculator.
  Python's unbounded integers are \<^typ>\<open>int\<close>. A Python \<^verbatim>\<open>str\<close> is a
  \<^typ>\<open>string\<close>; a \<^typ>\<open>char\<close> stands for a code point below 256, and in that range
  the only decimal digits are \<^verbatim>\<open>0\<close> to \<^verbatim>\<open>9\<close>. Every exception the code can raise is a
  value of \<open>py_error\<close>, and a function that can raise returns \<open>py_error + 'a\<close>.
\<close>

datatype py_error =
    Exception string
  | IndexError
  | ValueError
  | TypeError
  | AttributeError
  | ZeroDivisionError

section \<open>Currency formatting: \<^verbatim>\<open>display_salary\<close>\<close>

text \<open>
  Python's \<^verbatim>\<open>str\<close> on an integer: the decimal digits, most significant first, after a
  minus sign when the number is negative.
\<close>

definition digit_char :: "nat \<Rightarrow> char" where
  "digit_char d = ''0123456789'' ! d"

fun nat_digits :: "nat \<Rightarrow> string" where
  "nat_digits n =
     (if n < 10 then [digit_char n] else nat_digits (n div 10) @ [digit_char (n mod 10)])"

declare nat_digits.simps [simp del]

definition str_int :: "int \<Rightarrow> string" where
  "str_int i = (if i < 0 then CHR ''-'' # nat_digits (nat (- i)) else nat_digits (nat i))"

text \<open>
  \<^verbatim>\<open>'{:03d}'.format(x)\<close>: the digits padded on the left with zeros to a width of
  three, the sign (if any) counting towards the width and staying in front.
\<close>

definition zero_pad :: "nat \<Rightarrow> string \<Rightarrow> string" where
  "zero_pad w s = replicate (w - length s) CHR ''0'' @ s"

definition format_03d :: "int \<Rightarrow> string" where
  "format_03d x =
     (if x < 0 then CHR ''-'' # zero_pad 2 (nat_digits (nat (- x)))
      else zero_pad 3 (nat_digits (nat x)))"

text \<open>\<^verbatim>\<open>sep.join(parts)\<close>.\<close>

fun str_join :: "string \<Rightarrow> string list \<Rightarrow> string" where
  "str_join sep [] = []"
| "str_join sep [x] = x"
| "str_join sep (x # y # ys) = x @ sep @ str_join sep (y # ys)"

text \<open>
  The loop \<^verbatim>\<open>while n: buffer.append(int(n % 1000)); n //= 1000\<close>. Python's \<^verbatim>\<open>%\<close>
  and \<^verbatim>\<open>//\<close> round towards minus infinity, as \<open>mod\<close> and \<open>div\<close> on \<^typ>\<open>int\<close>
  do. On a negative \<open>n\<close> the loop never ends (\<open>-1 // 1000 = -1\<close>), so the loop is a
  partial function and \<open>None\<close> is "does not return".
\<close>

partial_function (option) display_salary_loop :: "int \<Rightarrow> int list \<Rightarrow> int list option" where
  "display_salary_loop n buffer =
     (if n \<noteq> 0 then display_salary_loop (n div 1000) (buffer @ [n mod 1000])
      else Some buffer)"

text \<open>
  After the loop the buffer is reversed; \<^verbatim>\<open>buffer[0]\<close> raises \<^verbatim>\<open>IndexError\<close> on an
  empty buffer; the first group is printed with \<^verbatim>\<open>str\<close>, the others with
  \<^verbatim>\<open>'{:03d}'.format\<close>.
\<close>

definition display_salary :: "int \<Rightarrow> (py_error + string) option" where
  "display_salary salary =
     (case display_salary_loop salary [] of
        None \<Rightarrow> None
      | Some buffer \<Rightarrow>
          Some (case rev buffer of
                  [] \<Rightarrow> Inl IndexError
                | b # bs \<Rightarrow> Inr (''$'' @ str_join '','' (str_int b # map format_03d bs))))"

section \<open>Players\<close>

text \<open>
  The dataclass \<^verbatim>\<open>Player\<close>. Its field \<^verbatim>\<open>salary: Union[int, str]\<close> holds an integer
  for a salary that was read, and a string otherwise.
\<close>

datatype salary_value = IntSalary int | StrSalary string

record player =
  name :: string
  salary :: salary_value
  year :: string
  level :: string

section \<open>The salary pattern \<^verbatim>\<open>SALARY_RE\<close>\<close>

text \<open>
  Regular expressions, with \<^verbatim>\<open>\d\<close> as a constructor, and matching by derivatives: a
  regular expression accepts \<open>c # s\<close> when its derivative by \<open>c\<close> accepts \<open>s\<close>.
  Python's backtracking search finds a match exactly when one exists.
\<close>

datatype regex =
    Nothing
  | Eps
  | Lit char
  | Digit
  | Seq regex regex
  | Alt regex regex
  | Star regex

definition Plus :: "regex \<Rightarrow> regex" where
  "Plus r = Seq r (Star r)"

definition Opt :: "regex \<Rightarrow> regex" where
  "Opt r = Alt r Eps"

definition is_digit :: "char \<Rightarrow> bool" where
  "is_digit c = (c \<in> set ''0123456789'')"

fun nullable :: "regex \<Rightarrow> bool" where
  "nullable Nothing = False"
| "nullable Eps = True"
| "nullable (Lit c) = False"
| "nullable Digit = False"
| "nullable (Seq r1 r2) = (nullable r1 \<and> nullable r2)"
| "nullable (Alt r1 r2) = (nullable r1 \<or> nullable r2)"
| "nullable (Star r) = True"

fun deriv :: "char \<Rightarrow> regex \<Rightarrow> regex" where
  "deriv c Nothing = Nothing"
| "deriv c Eps = Nothing"
| "deriv c (Lit d) = (if c = d then Eps else Nothing)"
| "deriv c Digit = (if is_digit c then Eps else Nothing)"
| "deriv c (Seq r1 r2) =
     (if nullable r1 then Alt (Seq (deriv c r1) r2) (deriv c r2) else Seq (deriv c r1) r2)"
| "deriv c (Alt r1 r2) = Alt (deriv c r1) (deriv c r2)"
| "deriv c (Star r) = Seq (deriv c r) (Star r)"

fun re_matches :: "regex \<Rightarrow> string \<Rightarrow> bool" where
  "re_matches r [] = nullable r"
| "re_matches r (c # s) = re_matches (deriv c r) s"

text \<open>
  \<^verbatim>\<open>SALARY_RE = re.compile(r"^\$*\d+(\,?\d+)*$")\<close>. The constant is the pattern between
  the two anchors.
\<close>

definition SALARY_RE :: regex where
  "SALARY_RE =
     Seq (Star (Lit CHR ''$''))
       (Seq (Plus Digit) (Star (Seq (Opt (Lit CHR '','')) (Plus Digit))))"

text \<open>
  \<^verbatim>\<open>pattern.search(s)\<close> for a pattern \<^verbatim>\<open>^r$\<close> compiled without flags, as a truth value.
  \<^verbatim>\<open>^\<close> matches only at the start of the string, so a match starts at position 0.
  \<^verbatim>\<open>$\<close> matches at the end of the string and also just before a newline that is the
  last character of the string.
\<close>

definition search_anchored :: "regex \<Rightarrow> string \<Rightarrow> bool" where
  "search_anchored r s =
     (re_matches r s \<or> (s \<noteq> [] \<and> last s = CHR 0x0A \<and> re_matches r (butlast s)))"

section \<open>Reading a player: \<^verbatim>\<open>extract_player\<close>\<close>

text \<open>\<^verbatim>\<open>s.replace(c, '')\<close> for a one-character \<open>c\<close>: every occurrence is removed.\<close>

definition replace_with_empty :: "char \<Rightarrow> string \<Rightarrow> string" where
  "replace_with_empty c s = filter (\<lambda>x. x \<noteq> c) s"

text \<open>
  Python's \<^verbatim>\<open>int(s)\<close> on a string: white space is stripped at both ends; what is left
  is an optional sign and decimal digits, where single underscores may stand between
  digits; anything else raises \<^verbatim>\<open>ValueError\<close>. The bound that some interpreters put on
  the number of digits (4300 unless configured) is left out.
\<close>

definition is_space :: "char \<Rightarrow> bool" where
  "is_space c =
     (c \<in> set [CHR 0x09, CHR 0x0A, CHR 0x0B, CHR 0x0C, CHR 0x0D, CHR 0x1C, CHR 0x1D,
                CHR 0x1E, CHR 0x1F, CHR 0x20, CHR 0x85, CHR 0xA0])"

definition strip :: "string \<Rightarrow> string" where
  "strip s = rev (dropWhile is_space (rev (dropWhile is_space s)))"

definition digit_val :: "char \<Rightarrow> nat" where
  "digit_val c = of_char c - 48"

fun int_digits :: "nat \<Rightarrow> string \<Rightarrow> nat option" where
  "int_digits acc [] = Some acc"
| "int_digits acc (c # cs) =
     (if is_digit c then int_digits (10 * acc + digit_val c) cs
      else if c = CHR ''_'' then
        (case cs of
           [] \<Rightarrow> None
         | d # ds \<Rightarrow> if is_digit d then int_digits (10 * acc + digit_val d) ds else None)
      else None)"

definition int_literal :: "string \<Rightarrow> nat option" where
  "int_literal s =
     (case s of
        [] \<Rightarrow> None
      | c # cs \<Rightarrow> if is_digit c then int_digits (digit_val c) cs else None)"

definition py_int :: "string \<Rightarrow> py_error + int" where
  "py_int s =
     (case strip s of
        [] \<Rightarrow> Inl ValueError
      | c # cs \<Rightarrow>
          (case (if c = CHR ''-'' then map_option (\<lambda>n. - int n) (int_literal cs)
                 else if c = CHR ''+'' then map_option int (int_literal cs)
                 else map_option int (int_literal (c # cs))) of
             None \<Rightarrow> Inl ValueError
           | Some v \<Rightarrow> Inr v))"

text \<open>
  A table row as \<^verbatim>\<open>extract_player\<close> sees it: for each of the four selectors
  \<^verbatim>\<open>td.player-name\<close>, \<^verbatim>\<open>td.player-salary\<close>, \<^verbatim>\<open>td.player-year\<close> and
  \<^verbatim>\<open>td.player-level\<close>, the text of the element \<^verbatim>\<open>select_one\<close> finds, or \<open>None\<close>
  when it finds none (then \<^verbatim>\<open>.text\<close> raises \<^verbatim>\<open>AttributeError\<close>).
\<close>

record tr =
  td_player_name :: "string option"
  td_player_salary :: "string option"
  td_player_year :: "string option"
  td_player_level :: "string option"

definition extract_player :: "tr \<Rightarrow> py_error + player" where
  "extract_player row =
     (case (td_player_name row, td_player_salary row, td_player_year row, td_player_level row) of
        (Some n, Some s, Some y, Some l) \<Rightarrow>
          (if search_anchored SALARY_RE s then
             (case py_int (replace_with_empty CHR '' ''
                     (replace_with_empty CHR '','' (replace_with_empty CHR ''$'' s))) of
                Inl e \<Rightarrow> Inl e
              | Inr v \<Rightarrow> Inr \<lparr>name = n, salary = IntSalary v, year = y, level = l\<rparr>)
           else Inr \<lparr>name = n, salary = StrSalary ''No data found'', year = y, level = l\<rparr>)
      | _ \<Rightarrow> Inl AttributeError)"

text \<open>
  \<^verbatim>\<open>extract_players\<close>: the rows \<^verbatim>\<open>soup.select('tbody tr')\<close> returns, each read by
  \<^verbatim>\<open>extract_player\<close> and appended; the first exception ends the loop.
\<close>

fun extract_players_loop :: "tr list \<Rightarrow> player list \<Rightarrow> py_error + player list" where
  "extract_players_loop [] players = Inr players"
| "extract_players_loop (row # rows) players =
     (case extract_player row of
        Inl e \<Rightarrow> Inl e
      | Inr p \<Rightarrow> extract_players_loop rows (players @ [p]))"

definition extract_players :: "tr list \<Rightarrow> py_error + player list" where
  "extract_players salary_columns = extract_players_loop salary_columns []"

section \<open>The bounded ranking: \<^verbatim>\<open>insert_in_limited_array\<close>\<close>

text \<open>
  The array is a list of slots, \<open>None\<close> for Python's \<^verbatim>\<open>None\<close>. \<^verbatim>\<open>array.insert(i, value)\<close>
  followed by \<^verbatim>\<open>array.pop()\<close> puts the value at index \<open>i\<close> and removes the last slot.
  The comparison \<open>gt\<close> may raise. The function mutates the array; the model returns it.
\<close>

definition list_insert :: "nat \<Rightarrow> 'a \<Rightarrow> 'a list \<Rightarrow> 'a list" where
  "list_insert i x xs = take i xs @ x # drop i xs"

definition list_pop :: "'a list \<Rightarrow> 'a list" where
  "list_pop xs = butlast xs"

function insert_loop ::
  "nat \<Rightarrow> 'a \<Rightarrow> ('a \<Rightarrow> 'a \<Rightarrow> py_error + bool) \<Rightarrow> 'a option list \<Rightarrow> py_error + 'a option list"
where
  "insert_loop i v gt array =
     (if i < length array then
        (case array ! i of
           None \<Rightarrow> Inr (list_pop (list_insert i (Some v) array))
         | Some item \<Rightarrow>
             (case gt v item of
                Inl e \<Rightarrow> Inl e
              | Inr True \<Rightarrow> Inr (list_pop (list_insert i (Some v) array))
              | Inr False \<Rightarrow> insert_loop (Suc i) v gt array))
      else Inr array)"
  by pat_completeness auto
termination
  by (relation "measure (\<lambda>(i, v, gt, array). length array - i)") auto

declare insert_loop.simps [simp del]

definition insert_in_limited_array ::
  "'a \<Rightarrow> ('a \<Rightarrow> 'a \<Rightarrow> py_error + bool) \<Rightarrow> 'a option list \<Rightarrow> py_error + 'a option list"
where
  "insert_in_limited_array v gt array = insert_loop 0 v gt array"

section \<open>The average: \<^verbatim>\<open>average\<close>\<close>

text \<open>
  The sum runs over the slots that are not \<^verbatim>\<open>None\<close>; \<open>get_value\<close> gives the integer to
  add to the total \<open>tot\<close>, or the exception the addition raises. \<^verbatim>\<open>total / length\<close> is Python's true
  division of two integers: it raises \<^verbatim>\<open>ZeroDivisionError\<close> on an empty array, and
  otherwise returns the floating-point number nearest to the quotient (and raises
  \<^verbatim>\<open>OverflowError\<close> for a quotient beyond the floating-point range, from about 1.8e308).
  The model keeps the exact quotient as a rational number and leaves rounding and range of
  the floating-point numbers out.
\<close>

fun average_loop :: "'a option list \<Rightarrow> ('a \<Rightarrow> py_error + int) \<Rightarrow> int \<Rightarrow> py_error + int" where
  "average_loop [] get_value tot = Inr tot"
| "average_loop (None # xs) get_value tot = average_loop xs get_value tot"
| "average_loop (Some x # xs) get_value tot =
     (case get_value x of
        Inl e \<Rightarrow> Inl e
      | Inr v \<Rightarrow> average_loop xs get_value (tot + v))"

definition average :: "'a option list \<Rightarrow> ('a \<Rightarrow> py_error + int) \<Rightarrow> py_error + rat" where
  "average array get_value =
     (case average_loop array get_value 0 of
        Inl e \<Rightarrow> Inl e
      | Inr tot \<Rightarrow>
          if length array = 0 then Inl ZeroDivisionError
          else Inr (of_int tot / of_int (int (length array))))"

section \<open>One run: \<^verbatim>\<open>crawl_page\<close> and \<^verbatim>\<open>App.crawl_players\<close>\<close>

text \<open>
  What \<^verbatim>\<open>requests.get(PAGE_URL)\<close> gives: a response with a status code and a text,
  or an exception of the transport. The field \<open>response_text\<close> is \<^verbatim>\<open>page.text\<close>.
  \<^verbatim>\<open>crawl_page\<close> returns the parsed page; the model returns the text that is parsed.
\<close>

record response =
  status_code :: int
  response_text :: string

definition crawl_page :: "py_error + response \<Rightarrow> py_error + string" where
  "crawl_page got =
     (case got of
        Inl e \<Rightarrow> Inl e
      | Inr page \<Rightarrow>
          if status_code page \<noteq> 200 then
            Inl (Exception ''Could not retrieve data set. Try again by running the script again.'')
          else Inr (response_text page))"

text \<open>
  The two lambdas of \<^verbatim>\<open>crawl_players\<close>. \<^verbatim>\<open>a.salary > b.salary\<close> compares two integers
  or two strings (by code points) and raises \<^verbatim>\<open>TypeError\<close> on an integer and a string.
  \<^verbatim>\<open>x.salary\<close> is added to an integer total, which raises \<^verbatim>\<open>TypeError\<close> for a string.
\<close>

fun str_less :: "string \<Rightarrow> string \<Rightarrow> bool" where
  "str_less [] [] = False"
| "str_less [] (y # ys) = True"
| "str_less (x # xs) [] = False"
| "str_less (x # xs) (y # ys) =
     ((of_char x :: nat) < of_char y \<or> (x = y \<and> str_less xs ys))"

definition salary_gt :: "player \<Rightarrow> player \<Rightarrow> py_error + bool" where
  "salary_gt a b =
     (case (salary a, salary b) of
        (IntSalary x, IntSalary y) \<Rightarrow> Inr (y < x)
      | (StrSalary s, StrSalary t) \<Rightarrow> Inr (str_less t s)
      | _ \<Rightarrow> Inl TypeError)"

definition get_salary :: "player \<Rightarrow> py_error + int" where
  "get_salary x = (case salary x of IntSalary v \<Rightarrow> Inr v | StrSalary s \<Rightarrow> Inl TypeError)"

text \<open>
  The body of the loop \<^verbatim>\<open>for p in players\<close>, on the pair of the array and the count of
  corrupted salaries, and the loop.
\<close>

definition crawl_players_step ::
  "player \<Rightarrow> player option list \<times> int \<Rightarrow> py_error + (player option list \<times> int)"
where
  "crawl_players_step p st =
     (case st of (highest_salaries_125, n_of_corrupted_salaries) \<Rightarrow>
        (case salary p of
           IntSalary v \<Rightarrow>
             (case insert_in_limited_array p salary_gt highest_salaries_125 of
                Inl e \<Rightarrow> Inl e
              | Inr array \<Rightarrow> Inr (array, n_of_corrupted_salaries))
         | StrSalary s \<Rightarrow> Inr (highest_salaries_125, n_of_corrupted_salaries + 1)))"

fun crawl_players_loop ::
  "player list \<Rightarrow> player option list \<times> int \<Rightarrow> py_error + (player option list \<times> int)"
where
  "crawl_players_loop [] st = Inr st"
| "crawl_players_loop (p # ps) st =
     (case crawl_players_step p st of
        Inl e \<Rightarrow> Inl e
      | Inr st' \<Rightarrow> crawl_players_loop ps st')"

text \<open>
  What a run assigns to the attributes of the application when it ends without an
  exception. \<open>select_rows\<close> stands for the HTML parser: the rows that
  \<^verbatim>\<open>soup.select('tbody tr')\<close> finds in a page text.
\<close>

record run_result =
  avg :: rat
  n_of_corrupted_salaries :: int
  players :: "player list"
  highest_salaries_125 :: "player option list"

definition crawl_players ::
  "(string \<Rightarrow> tr list) \<Rightarrow> py_error + response \<Rightarrow> py_error + run_result"
where
  "crawl_players select_rows got =
     (case crawl_page got of
        Inl e \<Rightarrow> Inl e
      | Inr page \<Rightarrow>
          (case extract_players (select_rows page) of
             Inl e \<Rightarrow> Inl e
           | Inr ps \<Rightarrow>
               (case crawl_players_loop ps (replicate 125 None, 0) of
                  Inl e \<Rightarrow> Inl e
                | Inr (array, n) \<Rightarrow>
                    (case average array get_salary of
                       Inl e \<Rightarrow> Inl e
                     | Inr a \<Rightarrow>
                         Inr \<lparr>avg = a, n_of_corrupted_salaries = n, players = ps,
                              highest_salaries_125 = array\<rparr>))))"

section \<open>The grammar of the specification\<close>





section \<open>Auxiliary functions of the proofs\<close>

subsection \<open>Formatting\<close>

text \<open>
  The groups of three digits of a number, least significant first, as the loop of
  \<^verbatim>\<open>display_salary\<close> appends them; and the texts of the groups, most significant first.
\<close>

declare display_salary_loop.simps [code]

fun peel_groups :: "nat \<Rightarrow> nat list" where
  "peel_groups n = (if n = 0 then [] else (n mod 1000) # peel_groups (n div 1000))"

declare peel_groups.simps [simp del]

fun group_texts :: "nat \<Rightarrow> string list" where
  "group_texts n =
     (if n < 1000 then [nat_digits n]
      else group_texts (n div 1000) @ [zero_pad 3 (nat_digits (n mod 1000))])"

declare group_texts.simps [simp del]

subsection \<open>The language of a regular expression\<close>




subsection \<open>Players and slots\<close>

text \<open>
  \<open>is_valid p\<close> is the test \<^verbatim>\<open>isinstance(p.salary, int)\<close> of \<^verbatim>\<open>crawl_players\<close>, and
  \<open>amount p\<close> is the integer \<^verbatim>\<open>p.salary\<close> of such a player (0 stands in for a player
  that has none). \<open>richer a b\<close> is \<^verbatim>\<open>a.salary > b.salary\<close> on two such players, and
  \<open>vacant_for v slot\<close> is the test \<^verbatim>\<open>item is None or gt(value, item)\<close> of the insertion
  loop on them. \<open>occupants\<close> lists the slots of an array that are not empty.
\<close>

definition amount :: "player \<Rightarrow> int" where
  "amount p = (case salary p of IntSalary v \<Rightarrow> v | StrSalary s \<Rightarrow> 0)"

definition is_valid :: "player \<Rightarrow> bool" where
  "is_valid p = (case salary p of IntSalary v \<Rightarrow> True | StrSalary s \<Rightarrow> False)"

definition richer :: "player \<Rightarrow> player \<Rightarrow> bool" where
  "richer a b = (amount b < amount a)"

definition vacant_for :: "player \<Rightarrow> player option \<Rightarrow> bool" where
  "vacant_for v slot = (case slot of None \<Rightarrow> True | Some item \<Rightarrow> richer v item)"

fun occupants :: "'a option list \<Rightarrow> 'a list" where
  "occupants [] = []"
| "occupants (None # xs) = occupants xs"
| "occupants (Some x # xs) = x # occupants xs"

text \<open>
  The insertion as a recursion over the slots, for a comparison \<open>g\<close> that does not
  raise; the same insertion on a list without empty slots and without a bound; the
  array of \<open>K\<close> slots that shows the first \<open>K\<close> elements of a list; and the list of
  all players with an integer salary seen so far, each inserted before the first one with
  a smaller amount. The loop of \<^verbatim>\<open>crawl_players\<close> is proved to compute the first 125
  elements of that list.
\<close>

fun place :: "('a \<Rightarrow> 'a \<Rightarrow> bool) \<Rightarrow> 'a \<Rightarrow> 'a option list \<Rightarrow> 'a option list" where
  "place g v [] = []"
| "place g v (None # xs) = Some v # butlast (None # xs)"
| "place g v (Some x # xs) =
     (if g v x then Some v # butlast (Some x # xs) else Some x # place g v xs)"

fun ins :: "('a \<Rightarrow> 'a \<Rightarrow> bool) \<Rightarrow> 'a \<Rightarrow> 'a list \<Rightarrow> 'a list" where
  "ins g v [] = [v]"
| "ins g v (x # xs) = (if g v x then v # x # xs else x # ins g v xs)"

definition slots :: "nat \<Rightarrow> 'a list \<Rightarrow> 'a option list" where
  "slots K xs = map Some (take K xs) @ replicate (K - length xs) None"

fun rank_all :: "player list \<Rightarrow> player list \<Rightarrow> player list" where
  "rank_all [] xs = xs"
| "rank_all (p # ps) xs = rank_all ps (if is_valid p then ins richer p xs else xs)"

subsection \<open>Concrete inputs\<close>

text \<open>Players, rows, salary texts and responses for the concrete instances.\<close>

definition player_a :: player where
  "player_a = \<lparr>name = ''A'', salary = IntSalary 5, year = ''2016'', level = ''MLB''\<rparr>"

definition player_b :: player where
  "player_b = \<lparr>name = ''B'', salary = IntSalary 5, year = ''2016'', level = ''MLB''\<rparr>"


definition player_top :: player where
  "player_top = \<lparr>name = ''T'', salary = IntSalary 10, year = ''2016'', level = ''MLB''\<rparr>"







definition page_404 :: response where
  "page_404 = \<lparr>status_code = 404, response_text = ''Not Found''\<rparr>"

definition page_204 :: response where
  "page_204 = \<lparr>status_code = 204, response_text = []\<rparr>"

definition page_200 :: response where
  "page_200 = \<lparr>status_code = 200, response_text = ''<html></html>''\<rparr>"

section \<open>Formatting: results\<close>

text \<open>
  C1. The claim: \<^verbatim>\<open>display_salary(0)\<close> returns \<^verbatim>\<open>"$0"\<close>. The code: the loop does not
  run on 0, the buffer stays empty, and \<^verbatim>\<open>buffer[0]\<close> raises \<^verbatim>\<open>IndexError\<close>; no string
  is returned.
\<close>

theorem display_salary_zero_raises:
  "display_salary 0 = Some (Inl IndexError) \<and> display_salary 0 \<noteq> Some (Inr ''$0'')"
  by (simp add: display_salary_def display_salary_loop.simps)

lemma display_salary_loop_nat:
  "display_salary_loop (int n) buffer = Some (buffer @ map int (peel_groups n))"
proof (induction n arbitrary: buffer rule: less_induct)
  case (less n)
  show ?case
  proof (cases "n = 0")
    case True
    then show ?thesis
      by (simp add: display_salary_loop.simps peel_groups.simps)
  next
    case False
    then have lt: "n div 1000 < n" by simp
    have "display_salary_loop (int n) buffer
          = display_salary_loop (int (n div 1000)) (buffer @ [int (n mod 1000)])"
      using False by (subst display_salary_loop.simps) (simp add: zdiv_int zmod_int)
    also have "\<dots> = Some ((buffer @ [int (n mod 1000)]) @ map int (peel_groups (n div 1000)))"
      by (rule less.IH [OF lt])
    also have "\<dots> = Some (buffer @ map int (peel_groups n))"
      using False by (subst (2) peel_groups.simps) simp
    finally show ?thesis .
  qed
qed

lemma rev_peel_groups:
  "0 < n \<Longrightarrow> \<exists>b bs. rev (map int (peel_groups n)) = b # bs \<and> group_texts n = str_int b # map format_03d bs"
proof (induction n rule: less_induct)
  case (less n)
  show ?case
  proof (cases "n < 1000")
    case True
    with less.prems have "peel_groups n = [n]"
      by (simp add: peel_groups.simps)
    then show ?thesis using True
      by (simp add: group_texts.simps str_int_def)
  next
    case False
    then have lt: "n div 1000 < n" and pos: "0 < n div 1000" by simp_all
    from less.IH [OF lt pos] obtain b bs where
      r: "rev (map int (peel_groups (n div 1000))) = b # bs"
      and g: "group_texts (n div 1000) = str_int b # map format_03d bs" by blast
    have "peel_groups n = (n mod 1000) # peel_groups (n div 1000)"
      using False by (subst peel_groups.simps) simp
    then have "rev (map int (peel_groups n)) = b # (bs @ [int (n mod 1000)])"
      using r by simp
    moreover have "group_texts n = str_int b # map format_03d (bs @ [int (n mod 1000)])"
      using False g by (subst group_texts.simps) (simp add: format_03d_def)
    ultimately show ?thesis by blast
  qed
qed

lemma display_salary_pos:
  assumes "0 < n"
  shows "display_salary (int n) = Some (Inr (''$'' @ str_join '','' (group_texts n)))"
proof -
  from rev_peel_groups [OF assms] obtain b bs where
    "rev (map int (peel_groups n)) = b # bs" "group_texts n = str_int b # map format_03d bs"
    by blast
  then show ?thesis
    using display_salary_loop_nat [of n "[]"] by (simp add: display_salary_def rev_map)
qed

lemma nat_digits_small: "n < 10 \<Longrightarrow> nat_digits n = [digit_char n]"
  by (subst nat_digits.simps) simp

lemma nat_digits_step: "10 \<le> n \<Longrightarrow> nat_digits n = nat_digits (n div 10) @ [digit_char (n mod 10)]"
  by (subst nat_digits.simps) simp

lemma digit_char_0: "digit_char 0 = CHR ''0''"
  by (simp add: digit_char_def)

lemma zero_pad_3_digits:
  assumes "m < 1000"
  shows "zero_pad 3 (nat_digits m)
         = [digit_char (m div 100), digit_char (m div 10 mod 10), digit_char (m mod 10)]"
proof -
  consider "m < 10" | "10 \<le> m" "m < 100" | "100 \<le> m" by linarith
  then show ?thesis
  proof cases
    case 1
    then show ?thesis
      by (simp add: nat_digits_small zero_pad_def digit_char_0 numeral_3_eq_3)
  next
    case 2
    then have "m div 10 < 10" "m div 100 = 0" by simp_all
    with 2 show ?thesis
      by (simp add: nat_digits_step nat_digits_small zero_pad_def digit_char_0)
  next
    case 3
    then have a: "10 \<le> m" and b: "10 \<le> m div 10" and c: "m div 10 div 10 < 10"
      using assms by simp_all
    have d: "m div 10 div 10 = m div 100" by (simp add: div_mult2_eq)
    have e: "m div 100 < 10" using assms by simp
    show ?thesis
      using d e
      by (simp add: nat_digits_step [OF a] nat_digits_step [OF b] nat_digits_small zero_pad_def)
  qed
qed

lemma mod_1000_hundreds: "(n::nat) mod 1000 div 100 = n div 100 mod 10"
proof -
  have "n mod 1000 = 100 * (n div 100 mod 10) + n mod 100"
    using mod_mult2_eq [of n 100 10] by simp
  then show ?thesis by simp
qed

lemma mod_1000_tens: "(n::nat) mod 1000 div 10 mod 10 = n div 10 mod 10"
proof -
  have "n mod 1000 = 10 * (n div 10 mod 100) + n mod 10"
    using mod_mult2_eq [of n 10 100] by simp
  then have "n mod 1000 div 10 = n div 10 mod 100" by simp
  then show ?thesis by (simp add: mod_mod_cancel)
qed

lemma mod_1000_units: "(n::nat) mod 1000 mod 10 = n mod 10"
  by (simp add: mod_mod_cancel)

lemma nat_digits_split_1000:
  assumes "1000 \<le> n"
  shows "nat_digits n = nat_digits (n div 1000) @ zero_pad 3 (nat_digits (n mod 1000))"
proof -
  have a: "10 \<le> n" and b: "10 \<le> n div 10" and c: "10 \<le> n div 100"
    using assms by simp_all
  have d1: "n div 10 div 10 = n div 100" and d2: "n div 100 div 10 = n div 1000"
    by (simp_all add: div_mult2_eq)
  have s1: "nat_digits n = nat_digits (n div 10) @ [digit_char (n mod 10)]"
    by (rule nat_digits_step [OF a])
  have s2: "nat_digits (n div 10) = nat_digits (n div 100) @ [digit_char (n div 10 mod 10)]"
    using nat_digits_step [OF b] by (simp only: d1)
  have s3: "nat_digits (n div 100) = nat_digits (n div 1000) @ [digit_char (n div 100 mod 10)]"
    using nat_digits_step [OF c] by (simp only: d2)
  have "zero_pad 3 (nat_digits (n mod 1000))
        = [digit_char (n div 100 mod 10), digit_char (n div 10 mod 10), digit_char (n mod 10)]"
    by (simp only: zero_pad_3_digits [of "n mod 1000"] mod_1000_hundreds mod_1000_tens
          mod_1000_units)
  then show ?thesis
    by (simp only: s1 s2 s3) simp
qed

lemma concat_group_texts: "concat (group_texts n) = nat_digits n"
proof (induction n rule: less_induct)
  case (less n)
  show ?case
  proof (cases "n < 1000")
    case True
    then show ?thesis by (subst group_texts.simps) simp
  next
    case False
    then have "n div 1000 < n" by simp
    from less.IH [OF this] False show ?thesis
      by (subst group_texts.simps) (simp add: nat_digits_split_1000)
  qed
qed

lemma length_nat_digits_lt_1000:
  assumes "n < 1000"
  shows "1 \<le> length (nat_digits n) \<and> length (nat_digits n) \<le> 3"
proof -
  consider "n < 10" | "10 \<le> n" "n < 100" | "100 \<le> n" by linarith
  then show ?thesis
  proof cases
    case 1
    then show ?thesis by (simp add: nat_digits_small)
  next
    case 2
    then have "n div 10 < 10" by simp
    with 2 show ?thesis by (simp add: nat_digits_step nat_digits_small)
  next
    case 3
    then have a: "10 \<le> n" and b: "10 \<le> n div 10" and c: "n div 10 div 10 < 10"
      using assms by simp_all
    show ?thesis
      by (simp add: nat_digits_step [OF a] nat_digits_step [OF b] nat_digits_small [OF c])
  qed
qed

lemma group_texts_shape:
  "\<exists>g gs. group_texts n = g # gs \<and> 1 \<le> length g \<and> length g \<le> 3 \<and> (\<forall>x\<in>set gs. length x = 3)"
proof (induction n rule: less_induct)
  case (less n)
  show ?case
  proof (cases "n < 1000")
    case True
    then show ?thesis
      using length_nat_digits_lt_1000 [OF True] by (subst group_texts.simps) simp
  next
    case False
    then have "n div 1000 < n" by simp
    from less.IH [OF this] obtain g gs where
      "group_texts (n div 1000) = g # gs" "1 \<le> length g" "length g \<le> 3" "\<forall>x\<in>set gs. length x = 3"
      by blast
    moreover have "length (zero_pad 3 (nat_digits (n mod 1000))) = 3"
      by (simp add: zero_pad_3_digits)
    ultimately show ?thesis using False
      by (subst group_texts.simps) simp
  qed
qed

lemma digit_char_in_digits: "d < 10 \<Longrightarrow> digit_char d \<in> set ''0123456789''"
proof -
  assume "d < 10"
  then have "d = 0 \<or> d = 1 \<or> d = 2 \<or> d = 3 \<or> d = 4 \<or> d = 5 \<or> d = 6 \<or> d = 7 \<or> d = 8 \<or> d = 9"
    by arith
  then show ?thesis
    by (elim disjE) (simp_all add: digit_char_def)
qed

lemma set_nat_digits: "set (nat_digits n) \<subseteq> set ''0123456789''"
proof (induction n rule: less_induct)
  case (less n)
  show ?case
  proof (cases "n < 10")
    case True
    then show ?thesis
      using digit_char_in_digits [OF True] by (simp add: nat_digits_small [OF True])
  next
    case False
    then have lt: "n div 10 < n" and ge: "10 \<le> n" by simp_all
    have "digit_char (n mod 10) \<in> set ''0123456789''"
      by (rule digit_char_in_digits) simp
    with less.IH [OF lt] show ?thesis
      by (simp add: nat_digits_step [OF ge])
  qed
qed

lemma set_str_join: "set (str_join sep xs) \<subseteq> set sep \<union> set (concat xs)"
  by (induction sep xs rule: str_join.induct) auto

text \<open>
  C9. For a positive amount the result is a dollar sign followed by groups joined by
  commas; the groups, put together, are the decimal digits of the amount; the first group
  has one to three digits and every other group exactly three; there is no other dollar
  sign. In particular 999 gives \<^verbatim>\<open>$999\<close> and 1234567 gives \<^verbatim>\<open>$1,234,567\<close>.
\<close>

theorem display_salary_positive:
  "(0 < n \<longrightarrow>
      (\<exists>g gs. display_salary n = Some (Inr (CHR ''$'' # str_join '','' (g # gs)))
         \<and> concat (g # gs) = str_int n
         \<and> 1 \<le> length g \<and> length g \<le> 3
         \<and> (\<forall>x\<in>set gs. length x = 3)
         \<and> CHR ''$'' \<notin> set (str_join '','' (g # gs))))
   \<and> display_salary 999 = Some (Inr ''$999'')
   \<and> display_salary 1234567 = Some (Inr ''$1,234,567'')"
proof (intro conjI impI)
  assume pos: "0 < n"
  then have n: "int (nat n) = n" and npos: "0 < nat n" by simp_all
  obtain g gs where shape: "group_texts (nat n) = g # gs" "1 \<le> length g" "length g \<le> 3"
    "\<forall>x\<in>set gs. length x = 3"
    using group_texts_shape [of "nat n"] by blast
  have "display_salary (int (nat n)) = Some (Inr (''$'' @ str_join '','' (group_texts (nat n))))"
    by (rule display_salary_pos [OF npos])
  then have out: "display_salary n = Some (Inr (CHR ''$'' # str_join '','' (g # gs)))"
    unfolding n shape(1) by simp
  have cat: "concat (g # gs) = str_int n"
    using concat_group_texts [of "nat n"] pos by (simp add: shape(1) str_int_def)
  have "set (str_join '','' (g # gs)) \<subseteq> set '','' \<union> set (nat_digits (nat n))"
    using set_str_join [of "'',''" "g # gs"] concat_group_texts [of "nat n"]
    by (simp only: shape(1))
  then have "CHR ''$'' \<notin> set (str_join '','' (g # gs))"
    using set_nat_digits [of "nat n"] by auto
  with out cat shape(2-4)
  show "\<exists>g gs. display_salary n = Some (Inr (CHR ''$'' # str_join '','' (g # gs)))
         \<and> concat (g # gs) = str_int n
         \<and> 1 \<le> length g \<and> length g \<le> 3
         \<and> (\<forall>x\<in>set gs. length x = 3)
         \<and> CHR ''$'' \<notin> set (str_join '','' (g # gs))"
    by blast
next
  show "display_salary 999 = Some (Inr ''$999'')" by code_simp
next
  show "display_salary 1234567 = Some (Inr ''$1,234,567'')" by code_simp
qed

theorem display_salary_positive_witness:
  "\<exists>g gs. display_salary 1234567 = Some (Inr (CHR ''$'' # str_join '','' (g # gs)))
     \<and> concat (g # gs) = str_int 1234567
     \<and> 1 \<le> length g \<and> length g \<le> 3
     \<and> list_all (\<lambda>x. length x = 3) gs
     \<and> display_salary 1234567 = Some (Inr ''$1,234,567'')"
proof -
  have pos: "(0::int) < 1234567" by simp
  from display_salary_positive [of 1234567] pos
  obtain g gs where
    "display_salary 1234567 = Some (Inr (CHR ''$'' # str_join '','' (g # gs)))"
    "concat (g # gs) = str_int 1234567" "1 \<le> length g" "length g \<le> 3"
    "\<forall>x\<in>set gs. length x = 3"
    "display_salary 1234567 = Some (Inr ''$1,234,567'')"
    by blast
  then show ?thesis
    unfolding list_all_iff by blast
qed

section \<open>The bounded ranking: results\<close>

lemma insert_loop_place:
  assumes "\<forall>x. Some x \<in> set (drop i array) \<longrightarrow> gt v x = Inr (g v x)"
  shows "insert_loop i v gt array = Inr (take i array @ place g v (drop i array))"
  using assms
proof (induction "length array - i" arbitrary: i)
  case 0
  then have "length array \<le> i" by simp
  then show ?case by (subst insert_loop.simps) simp
next
  case (Suc n)
  then have lt: "i < length array" by simp
  then have d: "drop i array = array ! i # drop (Suc i) array"
    by (simp add: Cons_nth_drop_Suc)
  have bl: "butlast (take i array @ Some v # drop i array)
            = take i array @ Some v # butlast (drop i array)"
    using lt by (simp add: butlast_append)
  show ?case
  proof (cases "array ! i")
    case None
    then show ?thesis using lt bl d
      by (subst insert_loop.simps) (simp add: list_pop_def list_insert_def)
  next
    case (Some x)
    then have gx: "gt v x = Inr (g v x)" using Suc.prems d by simp
    show ?thesis
    proof (cases "g v x")
      case True
      then show ?thesis using lt bl d Some gx
        by (subst insert_loop.simps) (simp add: list_pop_def list_insert_def)
    next
      case False
      have n: "n = length array - Suc i" using Suc.hyps(2) by simp
      have pre: "\<forall>y. Some y \<in> set (drop (Suc i) array) \<longrightarrow> gt v y = Inr (g v y)"
        using Suc.prems d by (metis list.set_intros(2))
      have "insert_loop (Suc i) v gt array
            = Inr (take (Suc i) array @ place g v (drop (Suc i) array))"
        by (rule Suc.hyps(1) [OF n pre])
      then show ?thesis using lt d Some gx False
        by (subst insert_loop.simps) (simp add: take_Suc_conv_app_nth)
    qed
  qed
qed

lemma length_place: "length (place g v xs) = length xs"
  by (induction g v xs rule: place.induct) auto

lemma length_ins: "length (ins g v xs) = Suc (length xs)"
  by (induction xs) auto

lemma set_ins: "set (ins g v xs) = insert v (set xs)"
  by (induction xs) auto

lemma mset_ins: "mset (ins g v xs) = add_mset v (mset xs)"
  by (induction xs) auto

lemma take_ins: "take K (ins g v xs) = take K (ins g v (take K xs))"
proof (induction xs arbitrary: K)
  case Nil
  then show ?case by simp
next
  case (Cons x xs)
  show ?case
  proof (cases K)
    case 0
    then show ?thesis by simp
  next
    case (Suc k)
    then show ?thesis using Cons.IH [of k]
      by (cases k) auto
  qed
qed

lemma butlast_replicate_Suc: "butlast (x # replicate k x) = replicate k x"
  by (induction k) auto

lemma butlast_append_replicate: "butlast (xs @ x # replicate k x) = xs @ replicate k x"
proof (induction xs)
  case Nil
  show ?case using butlast_replicate_Suc [of x k] by simp
next
  case (Cons a xs)
  then show ?case by simp
qed

lemma place_padded:
  "place g v (map Some ys @ replicate m None)
   = map Some (take (length ys + m) (ins g v ys)) @ replicate (m - 1) None"
proof (induction ys)
  case Nil
  then show ?case
    by (cases m) (simp_all add: butlast_replicate_Suc del: butlast.simps)
next
  case (Cons y ys)
  show ?case
  proof (cases "g v y")
    case True
    show ?thesis
    proof (cases m)
      case 0
      have a: "butlast (Some y # map Some ys) = map Some (butlast (y # ys))"
        by (simp add: map_butlast)
      have b: "take (length ys) (y # ys) = butlast (y # ys)"
        by (simp add: butlast_conv_take)
      have "place g v (Some y # map Some ys) = Some v # butlast (Some y # map Some ys)"
        using True by simp
      then show ?thesis using True 0 by (simp only: a) (simp add: b)
    next
      case (Suc k)
      have "place g v (map Some (y # ys) @ replicate (Suc k) None)
            = Some v # butlast ((Some y # map Some ys) @ None # replicate k None)"
        using True by simp
      also have "\<dots> = Some v # (Some y # map Some ys) @ replicate k None"
        by (simp only: butlast_append_replicate)
      finally show ?thesis using True Suc by simp
    qed
  next
    case False
    then show ?thesis using Cons.IH by simp
  qed
qed

lemma place_slots: "place g v (slots K xs) = slots K (ins g v xs)"
proof -
  have "place g v (slots K xs)
        = map Some (take (length (take K xs) + (K - length xs)) (ins g v (take K xs)))
          @ replicate (K - length xs - 1) None"
    unfolding slots_def by (rule place_padded)
  moreover have "length (take K xs) + (K - length xs) = K" by simp
  ultimately show ?thesis
    by (simp add: slots_def length_ins take_ins [symmetric])
qed


lemma valid_salary: "is_valid p \<Longrightarrow> salary p = IntSalary (amount p)"
  by (cases "salary p") (simp_all add: is_valid_def amount_def)

lemma salary_gt_valid: "is_valid a \<Longrightarrow> is_valid b \<Longrightarrow> salary_gt a b = Inr (richer a b)"
  by (simp add: salary_gt_def richer_def valid_salary)

lemma insert_valid:
  assumes "is_valid p" and "\<forall>q. Some q \<in> set array \<longrightarrow> is_valid q"
  shows "insert_in_limited_array p salary_gt array = Inr (place richer p array)"
proof -
  have "\<forall>x. Some x \<in> set (drop 0 array) \<longrightarrow> salary_gt p x = Inr (richer p x)"
    using assms by (simp add: salary_gt_valid)
  then have "insert_loop 0 p salary_gt array
             = Inr (take 0 array @ place richer p (drop 0 array))"
    by (rule insert_loop_place [where g = richer])
  then show ?thesis
    by (simp add: insert_in_limited_array_def)
qed

lemma set_slots: "Some q \<in> set (slots K xs) \<longleftrightarrow> q \<in> set (take K xs)"
  by (auto simp: slots_def)

lemma length_slots: "length (slots K xs) = K"
  by (simp add: slots_def)

lemma slots_empty: "slots K [] = replicate K None"
  by (simp add: slots_def)

lemma step_valid_slots:
  assumes "is_valid p" and "\<forall>q\<in>set xs. is_valid q"
  shows "crawl_players_step p (slots K xs, n) = Inr (slots K (ins richer p xs), n)"
proof -
  have "\<forall>q. Some q \<in> set (slots K xs) \<longrightarrow> is_valid q"
    using assms(2) by (auto simp: set_slots dest: in_set_takeD)
  from insert_valid [OF assms(1) this] assms(1) show ?thesis
    by (cases "salary p") (simp_all add: crawl_players_step_def place_slots is_valid_def)
qed

lemma step_corrupted:
  "\<not> is_valid p \<Longrightarrow> crawl_players_step p (array, n) = Inr (array, n + 1)"
  by (cases "salary p") (simp_all add: crawl_players_step_def is_valid_def)

lemma valid_rank_step:
  "\<forall>q\<in>set xs. is_valid q \<Longrightarrow> \<forall>q\<in>set (if is_valid p then ins richer p xs else xs). is_valid q"
  by (simp add: set_ins)

lemma loop_slots:
  assumes "\<forall>q\<in>set xs. is_valid q"
  shows "crawl_players_loop ps (slots K xs, n)
         = Inr (slots K (rank_all ps xs), n + int (length (filter (\<lambda>p. \<not> is_valid p) ps)))"
  using assms
proof (induction ps arbitrary: xs n)
  case Nil
  then show ?case by simp
next
  case (Cons p ps)
  show ?case
  proof (cases "is_valid p")
    case True
    have v: "\<forall>q\<in>set (ins richer p xs). is_valid q"
      using Cons.prems True by (simp add: set_ins)
    show ?thesis
      using True Cons.IH [OF v, of n] by (simp add: step_valid_slots [OF True Cons.prems])
  next
    case False
    show ?thesis
      using False Cons.IH [OF Cons.prems, of "n + 1"] by (simp add: step_corrupted)
  qed
qed

lemma set_rank_all: "set (rank_all ps xs) = set xs \<union> {p \<in> set ps. is_valid p}"
  by (induction ps arbitrary: xs) (auto simp: set_ins)

lemma mset_rank_all: "mset (rank_all ps xs) = mset xs + mset (filter is_valid ps)"
  by (induction ps arbitrary: xs) (auto simp: mset_ins)

lemma sorted_ins:
  "sorted_wrt (\<lambda>a b. amount b \<le> amount a) xs
   \<Longrightarrow> sorted_wrt (\<lambda>a b. amount b \<le> amount a) (ins richer v xs)"
proof (induction xs)
  case Nil
  then show ?case by simp
next
  case (Cons x xs)
  show ?case
  proof (cases "richer v x")
    case True
    then have "amount x < amount v" by (simp add: richer_def)
    with Cons.prems True show ?thesis by fastforce
  next
    case False
    then have "amount v \<le> amount x" by (simp add: richer_def)
    with Cons False show ?thesis by (auto simp: set_ins)
  qed
qed

lemma sorted_rank_all:
  "sorted_wrt (\<lambda>a b. amount b \<le> amount a) xs
   \<Longrightarrow> sorted_wrt (\<lambda>a b. amount b \<le> amount a) (rank_all ps xs)"
  by (induction ps arbitrary: xs) (auto simp: sorted_ins)

lemma loop_from_empty:
  "crawl_players_loop ps (replicate 125 None, 0)
   = Inr (slots 125 (rank_all ps []), int (length (filter (\<lambda>p. \<not> is_valid p) ps)))"
  using loop_slots [of "[]" ps 125 0] by (simp add: slots_empty)

lemma nth_slots_Some: "i < K \<Longrightarrow> i < length xs \<Longrightarrow> slots K xs ! i = Some (xs ! i)"
  by (simp add: slots_def nth_append)

lemma nth_slots_None: "i < K \<Longrightarrow> length xs \<le> i \<Longrightarrow> slots K xs ! i = None"
  by (simp add: slots_def nth_append)

lemma insert_loop_length:
  "insert_loop i v gt array = Inr array' \<Longrightarrow> length array' = length array"
proof (induction i v gt array rule: insert_loop.induct)
  case (1 i v gt array)
  show ?case
  proof (cases "i < length array")
    case False
    with "1.prems" show ?thesis
      by (subst (asm) insert_loop.simps) simp
  next
    case lt: True
    have ins_len: "length (list_pop (list_insert i (Some v) array)) = length array"
      using lt by (simp add: list_pop_def list_insert_def)
    show ?thesis
    proof (cases "array ! i")
      case None
      with "1.prems" lt ins_len show ?thesis
        by (subst (asm) insert_loop.simps) auto
    next
      case (Some item)
      show ?thesis
      proof (cases "gt v item")
        case (Inl e)
        with "1.prems" lt Some show ?thesis
          by (subst (asm) insert_loop.simps) simp
      next
        case (Inr b)
        show ?thesis
        proof (cases b)
          case True
          with "1.prems" lt Some Inr ins_len show ?thesis
            by (subst (asm) insert_loop.simps) auto
        next
          case False
          with "1.prems" lt Some Inr have "insert_loop (Suc i) v gt array = Inr array'"
            by (subst (asm) insert_loop.simps) simp
          with "1.IH" [OF lt Some Inr] False show ?thesis by simp
        qed
      qed
    qed
  qed
qed

lemma length_occupants: "length (occupants xs) \<le> length xs"
  by (induction xs rule: occupants.induct) auto

text \<open>
  C6. Every insertion returns an array of the length it was given, for any comparison
  and any array; so does every step of the loop of \<^verbatim>\<open>crawl_players\<close>; and a run over
  any list of players ends with an array of exactly 125 slots, hence at most 125
  occupants.
\<close>

theorem capacity_invariant:
  "(insert_in_limited_array v gt array = Inr array' \<longrightarrow> length array' = length array)
   \<and> (crawl_players_step p (array, n) = Inr (array', n') \<longrightarrow> length array' = length array)
   \<and> (\<exists>arr cnt. crawl_players_loop ps (replicate 125 None, 0) = Inr (arr, cnt)
         \<and> length arr = 125 \<and> length (occupants arr) \<le> 125)"
proof (intro conjI impI)
  assume "insert_in_limited_array v gt array = Inr array'"
  then show "length array' = length array"
    unfolding insert_in_limited_array_def by (rule insert_loop_length)
next
  assume "crawl_players_step p (array, n) = Inr (array', n')"
  then show "length array' = length array"
    by (auto simp: crawl_players_step_def insert_in_limited_array_def
          split: salary_value.splits sum.splits dest: insert_loop_length)
next
  have "length (occupants (slots 125 (rank_all ps []))) \<le> 125"
    using length_occupants [of "slots 125 (rank_all ps [])"] by (simp add: length_slots)
  then show "\<exists>arr cnt. crawl_players_loop ps (replicate 125 None, 0) = Inr (arr, cnt)
         \<and> length arr = 125 \<and> length (occupants arr) \<le> 125"
    by (simp add: loop_from_empty length_slots)
qed

theorem capacity_invariant_witness:
  "insert_in_limited_array player_a salary_gt (replicate 125 None)
     = Inr (Some player_a # replicate 124 None)
   \<and> length (Some player_a # replicate 124 None) = 125
   \<and> crawl_players_step player_a (replicate 125 None, 0) = Inr (Some player_a # replicate 124 None, 0)"
proof -
  have h1: "insert_in_limited_array player_a salary_gt (replicate 125 None)
            = Inr (Some player_a # replicate 124 None)"
    by code_simp
  have h2: "crawl_players_step player_a (replicate 125 None, 0)
            = Inr (Some player_a # replicate 124 None, 0)"
    by code_simp
  from capacity_invariant [of player_a salary_gt "replicate 125 None"
      "Some player_a # replicate 124 None" player_a 0 0 "[]"] h1 h2
  have "length (Some player_a # replicate 124 None)
        = length (replicate 125 None :: player option list)"
    by blast
  with h1 h2 show ?thesis by simp
qed




lemma occupants_slots: "occupants (slots K xs) = take K xs"
proof -
  have a: "occupants (replicate m None) = ([] :: 'a list)" for m
    by (induction m) auto
  have b: "occupants (map Some ys @ zs) = ys @ occupants zs" for ys :: "'a list" and zs
    by (induction ys) auto
  show ?thesis by (simp add: slots_def a b)
qed

lemma None_in_slots: "None \<in> set (slots K xs) \<longleftrightarrow> length xs < K"
  by (auto simp: slots_def)

lemma place_no_vacancy:
  "\<forall>x\<in>set array. \<exists>q. x = Some q \<and> \<not> g v q \<Longrightarrow> place g v array = array"
  by (induction g v array rule: place.induct) auto

lemma valid_rank_all: "q \<in> set (rank_all ps []) \<Longrightarrow> is_valid q \<and> q \<in> set ps"
  by (simp add: set_rank_all)

lemma sorted_rank_all_empty: "sorted_wrt (\<lambda>a b. amount b \<le> amount a) (rank_all ps [])"
  by (rule sorted_rank_all) simp

lemma ranked_order:
  assumes "i < j" "j < K" "slots K (rank_all ps []) ! j \<noteq> None"
  shows "\<exists>p q. slots K (rank_all ps []) ! i = Some p \<and> slots K (rank_all ps []) ! j = Some q
           \<and> is_valid p \<and> is_valid q \<and> amount q \<le> amount p"
proof -
  let ?S = "rank_all ps []"
  have j: "j < length ?S"
  proof (rule ccontr)
    assume "\<not> j < length ?S"
    then have "slots K ?S ! j = None" using assms(2) by (simp add: nth_slots_None)
    with assms(3) show False by simp
  qed
  then have i: "i < length ?S" using assms(1) by simp
  have "amount (?S ! j) \<le> amount (?S ! i)"
    using sorted_wrt_nth_less [OF sorted_rank_all_empty assms(1) j] .
  moreover have "is_valid (?S ! i)" "is_valid (?S ! j)"
    using valid_rank_all [of "?S ! i" ps] valid_rank_all [of "?S ! j" ps] i j by simp_all
  moreover have "slots K ?S ! i = Some (?S ! i)" "slots K ?S ! j = Some (?S ! j)"
    using assms(1,2) i j by (simp_all add: nth_slots_Some)
  ultimately show ?thesis by simp
qed

lemma excluded_below:
  assumes "p \<in> set (drop K (rank_all ps []))"
  shows "None \<notin> set (slots K (rank_all ps []))
         \<and> (\<forall>q. Some q \<in> set (slots K (rank_all ps [])) \<longrightarrow> amount p \<le> amount q)"
proof -
  let ?S = "rank_all ps []"
  have "drop K ?S \<noteq> []" using assms by auto
  then have len: "K < length ?S" by simp
  have "sorted_wrt (\<lambda>a b. amount b \<le> amount a) (take K ?S @ drop K ?S)"
    using sorted_rank_all_empty [of ps] by simp
  then have "\<forall>q\<in>set (take K ?S). amount p \<le> amount q"
    using assms unfolding sorted_wrt_append by blast
  with len show ?thesis
    by (simp add: None_in_slots set_slots)
qed

lemma excluded_mset:
  "mset (filter is_valid ps) - mset (occupants (slots K (rank_all ps [])))
   = mset (drop K (rank_all ps []))"
proof -
  have "mset (filter is_valid ps) = mset (take K (rank_all ps [])) + mset (drop K (rank_all ps []))"
    using mset_rank_all [of ps "[]"] by (simp flip: mset_append)
  then show ?thesis by (simp add: occupants_slots)
qed

lemma absent_is_excluded:
  assumes "p \<in> set ps" "is_valid p" "Some p \<notin> set (slots K (rank_all ps []))"
  shows "p \<in> set (drop K (rank_all ps []))"
proof -
  have "set (rank_all ps []) = set (take K (rank_all ps [])) \<union> set (drop K (rank_all ps []))"
    by (metis append_take_drop_id set_append)
  moreover have "p \<in> set (rank_all ps [])"
    using assms(1,2) by (simp add: set_rank_all)
  moreover have "p \<notin> set (take K (rank_all ps []))"
    using assms(3) by (simp add: set_slots)
  ultimately show ?thesis by blast
qed

text \<open>
  C2. A run over any list of players, from 125 empty slots, ends without an exception.
  In the final array a slot that is not empty has only non-empty slots before it, each
  with an amount at least as large: the occupants are in descending order and the empty
  slots are at the end. Every occupant is a player of the list with an integer salary. A
  player of the list with an integer salary that is not in the array was left out of a
  full array (no empty slot) whose occupants all have at least its amount; the same holds
  for every player counted with multiplicity that the array lacks. In particular a step
  on a full array whose occupants all have the incoming amount returns the array as it is.
\<close>

theorem ranked_set_after_ingestion:
  "(\<exists>arr cnt. crawl_players_loop ps (replicate 125 None, 0) = Inr (arr, cnt)
       \<and> length arr = 125
       \<and> (\<forall>i j. i < j \<and> j < 125 \<and> arr ! j \<noteq> None
             \<longrightarrow> (\<exists>p q. arr ! i = Some p \<and> arr ! j = Some q
                     \<and> is_valid p \<and> is_valid q \<and> amount q \<le> amount p))
       \<and> (\<forall>q. Some q \<in> set arr \<longrightarrow> is_valid q \<and> q \<in> set ps)
       \<and> (\<forall>p. p \<in> set ps \<and> is_valid p \<and> Some p \<notin> set arr
             \<longrightarrow> None \<notin> set arr \<and> (\<forall>q. Some q \<in> set arr \<longrightarrow> amount p \<le> amount q))
       \<and> (\<forall>p. p \<in># mset (filter is_valid ps) - mset (occupants arr)
             \<longrightarrow> None \<notin> set arr \<and> (\<forall>q. Some q \<in> set arr \<longrightarrow> amount p \<le> amount q)))
   \<and> (length array = 125 \<and> (\<forall>x\<in>set array. \<exists>q. x = Some q \<and> salary q = IntSalary m)
        \<and> salary p0 = IntSalary m
      \<longrightarrow> crawl_players_step p0 (array, n) = Inr (array, n))"
proof (intro conjI impI)
  let ?arr = "slots 125 (rank_all ps [])"
  have run: "crawl_players_loop ps (replicate 125 None, 0)
             = Inr (?arr, int (length (filter (\<lambda>p. \<not> is_valid p) ps)))"
    by (rule loop_from_empty)
  have len: "length ?arr = 125" by (rule length_slots)
  have ord: "\<forall>i j. i < j \<and> j < 125 \<and> ?arr ! j \<noteq> None
             \<longrightarrow> (\<exists>p q. ?arr ! i = Some p \<and> ?arr ! j = Some q
                     \<and> is_valid p \<and> is_valid q \<and> amount q \<le> amount p)"
    using ranked_order [of _ _ 125 ps] by blast
  have occ: "\<forall>q. Some q \<in> set ?arr \<longrightarrow> is_valid q \<and> q \<in> set ps"
    using valid_rank_all [of _ ps] by (auto simp: set_slots dest: in_set_takeD)
  have absent: "\<forall>p. p \<in> set ps \<and> is_valid p \<and> Some p \<notin> set ?arr
             \<longrightarrow> None \<notin> set ?arr \<and> (\<forall>q. Some q \<in> set ?arr \<longrightarrow> amount p \<le> amount q)"
    using absent_is_excluded [of _ ps 125] excluded_below [of _ 125 ps] by blast
  have excl: "\<forall>p. p \<in># mset (filter is_valid ps) - mset (occupants ?arr)
             \<longrightarrow> None \<notin> set ?arr \<and> (\<forall>q. Some q \<in> set ?arr \<longrightarrow> amount p \<le> amount q)"
    unfolding excluded_mset set_mset_mset using excluded_below [of _ 125 ps] by blast
  from run len ord occ absent excl
  show "\<exists>arr cnt. crawl_players_loop ps (replicate 125 None, 0) = Inr (arr, cnt)
       \<and> length arr = 125
       \<and> (\<forall>i j. i < j \<and> j < 125 \<and> arr ! j \<noteq> None
             \<longrightarrow> (\<exists>p q. arr ! i = Some p \<and> arr ! j = Some q
                     \<and> is_valid p \<and> is_valid q \<and> amount q \<le> amount p))
       \<and> (\<forall>q. Some q \<in> set arr \<longrightarrow> is_valid q \<and> q \<in> set ps)
       \<and> (\<forall>p. p \<in> set ps \<and> is_valid p \<and> Some p \<notin> set arr
             \<longrightarrow> None \<notin> set arr \<and> (\<forall>q. Some q \<in> set arr \<longrightarrow> amount p \<le> amount q))
       \<and> (\<forall>p. p \<in># mset (filter is_valid ps) - mset (occupants arr)
             \<longrightarrow> None \<notin> set arr \<and> (\<forall>q. Some q \<in> set arr \<longrightarrow> amount p \<le> amount q))"
    by blast
next
  assume a: "length array = 125 \<and> (\<forall>x\<in>set array. \<exists>q. x = Some q \<and> salary q = IntSalary m)
        \<and> salary p0 = IntSalary m"
  then have v: "is_valid p0" and av: "amount p0 = m"
    by (simp_all add: is_valid_def amount_def)
  have allv: "\<forall>q. Some q \<in> set array \<longrightarrow> is_valid q"
    using a by (auto simp: is_valid_def)
  have "\<forall>x\<in>set array. \<exists>q. x = Some q \<and> \<not> richer p0 q"
    using a av by (auto simp: richer_def amount_def)
  then have "place richer p0 array = array" by (rule place_no_vacancy)
  with insert_valid [OF v allv] a show "crawl_players_step p0 (array, n) = Inr (array, n)"
    by (simp add: crawl_players_step_def)
qed

lemma ins_no_richer: "\<forall>x\<in>set xs. \<not> g v x \<Longrightarrow> ins g v xs = xs @ [v]"
  by (induction xs) auto

lemma rank_all_replicate:
  "is_valid a \<Longrightarrow> \<forall>x\<in>set xs. amount x = amount a
   \<Longrightarrow> rank_all (replicate k a) xs = xs @ replicate k a"
proof (induction k arbitrary: xs)
  case 0
  then show ?case by simp
next
  case (Suc k)
  have "ins richer a xs = xs @ [a]"
    using Suc.prems(2) by (intro ins_no_richer) (simp add: richer_def)
  moreover have "rank_all (replicate k a) (xs @ [a]) = (xs @ [a]) @ replicate k a"
    using Suc.prems by (intro Suc.IH) auto
  ultimately show ?case using Suc.prems(1) by (simp add: replicate_app_Cons_same)
qed

lemma rank_all_append: "rank_all (ps @ qs) xs = rank_all qs (rank_all ps xs)"
  by (induction ps arbitrary: xs) auto

lemma run_full_of_ties:
  "crawl_players_loop (replicate 125 player_a @ [player_b]) (replicate 125 None, 0)
   = Inr (replicate 125 (Some player_a), 0)"
proof -
  have va: "is_valid player_a" and vb: "is_valid player_b"
    by (simp_all add: is_valid_def player_a_def player_b_def)
  have r1: "rank_all (replicate 125 player_a) [] = replicate 125 player_a"
    using rank_all_replicate [OF va, of "[]" 125] by simp
  have "ins richer player_b (replicate 125 player_a) = replicate 125 player_a @ [player_b]"
    by (intro ins_no_richer) (simp add: richer_def amount_def player_a_def player_b_def)
  then have r2: "rank_all (replicate 125 player_a @ [player_b]) []
                 = replicate 125 player_a @ [player_b]"
    using vb by (simp add: rank_all_append r1)
  have "filter (\<lambda>p. \<not> is_valid p) (replicate 125 player_a @ [player_b]) = []"
    using va vb by simp
  then show ?thesis
    by (simp add: loop_from_empty r2 slots_def)
qed

theorem ranked_set_after_ingestion_witness:
  "crawl_players_loop (replicate 125 player_a @ [player_b]) (replicate 125 None, 0)
     = Inr (replicate 125 (Some player_a), 0)
   \<and> player_b \<in> set (replicate 125 player_a @ [player_b])
   \<and> is_valid player_b
   \<and> Some player_b \<notin> set (replicate 125 (Some player_a))
   \<and> None \<notin> set (replicate 125 (Some player_a))
   \<and> amount player_b \<le> amount player_a
   \<and> crawl_players_step player_b (replicate 125 (Some player_a), 0)
       = Inr (replicate 125 (Some player_a), 0)"
proof -
  let ?ps = "replicate 125 player_a @ [player_b]"
  let ?full = "replicate 125 (Some player_a)"
  have run: "crawl_players_loop ?ps (replicate 125 None, 0) = Inr (?full, 0)"
    by (rule run_full_of_ties)
  have h1: "player_b \<in> set ?ps" by simp
  have h2: "is_valid player_b" by (simp add: is_valid_def player_b_def)
  have h3: "Some player_b \<notin> set ?full" by (simp add: player_a_def player_b_def)
  have h4: "length ?full = 125 \<and> (\<forall>x\<in>set ?full. \<exists>q. x = Some q \<and> salary q = IntSalary 5)
        \<and> salary player_b = IntSalary 5"
    by (simp add: player_a_def player_b_def)
  have h5: "Some player_a \<in> set ?full" by simp
  note t = ranked_set_after_ingestion [of ?ps ?full 5 player_b 0]
  from t run h1 h2 h3 have c1: "None \<notin> set ?full"
    by (metis Inr_inject prod.inject)
  from t run h1 h2 h3 h5 have c2: "amount player_b \<le> amount player_a"
    by (metis Inr_inject prod.inject)
  from t h4 have c3: "crawl_players_step player_b (?full, 0) = Inr (?full, 0)"
    by blast
  from run h1 h2 h3 c1 c2 c3 show ?thesis by blast
qed

lemma place_prefix:
  "\<forall>k<n. k < length arr \<longrightarrow> \<not> vacant_for v (arr ! k)
   \<Longrightarrow> take n (place richer v arr) = take n arr"
proof (induction arr arbitrary: n)
  case Nil
  then show ?case by simp
next
  case (Cons s rest)
  show ?case
  proof (cases n)
    case 0
    then show ?thesis by simp
  next
    case (Suc n')
    from Cons.prems Suc have "\<not> vacant_for v ((s # rest) ! 0)" by auto
    then obtain x where s: "s = Some x" and nx: "\<not> richer v x"
      by (cases s) (auto simp: vacant_for_def)
    have "\<forall>k<n'. k < length rest \<longrightarrow> \<not> vacant_for v (rest ! k)"
    proof (intro allI impI)
      fix k assume "k < n'" "k < length rest"
      then have "Suc k < n" "Suc k < length (s # rest)" using Suc by simp_all
      with Cons.prems have "\<not> vacant_for v ((s # rest) ! Suc k)" by blast
      then show "\<not> vacant_for v (rest ! k)" by simp
    qed
    from Cons.IH [OF this] show ?thesis using s nx Suc by simp
  qed
qed

lemma place_at_first_vacancy:
  "i < length arr \<Longrightarrow> vacant_for v (arr ! i) \<Longrightarrow> \<forall>j<i. \<not> vacant_for v (arr ! j)
   \<Longrightarrow> place richer v arr = take i arr @ Some v # butlast (drop i arr)"
proof (induction arr arbitrary: i)
  case Nil
  then show ?case by simp
next
  case (Cons s rest)
  show ?case
  proof (cases i)
    case 0
    with Cons.prems show ?thesis
      by (cases s) (auto simp: vacant_for_def)
  next
    case (Suc i')
    from Cons.prems(3) Suc have "\<not> vacant_for v ((s # rest) ! 0)" by blast
    then obtain x where s: "s = Some x" and nx: "\<not> richer v x"
      by (cases s) (auto simp: vacant_for_def)
    have a: "i' < length rest" "vacant_for v (rest ! i')"
      using Cons.prems(1,2) Suc by simp_all
    have b: "\<forall>j<i'. \<not> vacant_for v (rest ! j)"
    proof (intro allI impI)
      fix j assume "j < i'"
      then have "Suc j < i" using Suc by simp
      with Cons.prems(3) have "\<not> vacant_for v ((s # rest) ! Suc j)" by blast
      then show "\<not> vacant_for v (rest ! j)" by simp
    qed
    from Cons.IH [OF a b] show ?thesis using s nx Suc by simp
  qed
qed

lemma shifted_nth:
  assumes "i < length arr" and "arr1 = take i arr @ Some v # butlast (drop i arr)"
  shows "length arr1 = length arr" and "\<forall>k<i. arr1 ! k = arr ! k" and "arr1 ! i = Some v"
    and "Suc i < length arr \<longrightarrow> arr1 ! Suc i = arr ! i"
proof -
  show "length arr1 = length arr" using assms by simp
  show "\<forall>k<i. arr1 ! k = arr ! k" using assms by (simp add: nth_append)
  show "arr1 ! i = Some v" using assms by (simp add: nth_append)
  show "Suc i < length arr \<longrightarrow> arr1 ! Suc i = arr ! i"
    using assms by (auto simp: nth_append nth_butlast)
qed

lemma vacant_for_same_amount: "amount a = amount b \<Longrightarrow> vacant_for b s = vacant_for a s"
  by (cases s) (simp_all add: vacant_for_def richer_def)

lemma set_place: "set (place g v arr) \<subseteq> insert (Some v) (set arr)"
proof (induction g v arr rule: place.induct)
  case (1 g v)
  then show ?case by simp
next
  case (2 g v xs)
  have "set (butlast (None # xs)) \<subseteq> set (None # xs)"
    by (meson in_set_butlastD subsetI)
  then show ?case by auto
next
  case (3 g v x xs)
  have "set (butlast (Some x # xs)) \<subseteq> set (Some x # xs)"
    by (meson in_set_butlastD subsetI)
  with 3 show ?case by auto
qed

lemma tie_first_then_second:
  assumes ab: "amount a = amount b"
      and i: "i < length array" and vac: "vacant_for a (array ! i)"
      and first: "\<forall>j<i. \<not> vacant_for a (array ! j)"
      and arr1: "arr1 = place richer a array" and arr2: "arr2 = place richer b arr1"
  shows "arr1 ! i = Some a \<and> arr2 ! i = Some a \<and> take (Suc i) arr2 = take (Suc i) arr1
         \<and> (Suc i < length array \<longrightarrow> arr2 ! Suc i = Some b)
         \<and> (Suc i = length array \<longrightarrow> arr2 = arr1)"
proof -
  have shape: "arr1 = take i array @ Some a # butlast (drop i array)"
    unfolding arr1 by (rule place_at_first_vacancy [OF i vac first])
  note n = shifted_nth [OF i shape]
  have len2: "length arr2 = length arr1" unfolding arr2 by (rule length_place)
  have at_i: "\<not> vacant_for b (arr1 ! i)"
    using ab by (simp add: n(3) vacant_for_def richer_def)
  have before: "\<forall>k<i. \<not> vacant_for b (arr1 ! k)"
    using first n(2) vacant_for_same_amount [OF ab] by simp
  have upto: "\<forall>k<Suc i. \<not> vacant_for b (arr1 ! k)"
    using before at_i by (auto simp: less_Suc_eq)
  then have pre: "take (Suc i) arr2 = take (Suc i) arr1"
    unfolding arr2 by (intro place_prefix) simp
  have "arr2 ! i = take (Suc i) arr2 ! i" by simp
  also have "\<dots> = arr1 ! i" unfolding pre by simp
  finally have a2: "arr2 ! i = Some a" using n(3) by simp
  have next_slot: "arr2 ! Suc i = Some b" if lt: "Suc i < length array"
  proof -
    have l1: "Suc i < length arr1" using lt n(1) by simp
    have "arr1 ! Suc i = array ! i" using lt n(4) by simp
    then have v1: "vacant_for b (arr1 ! Suc i)"
      using vac vacant_for_same_amount [OF ab] by simp
    have "arr2 = take (Suc i) arr1 @ Some b # butlast (drop (Suc i) arr1)"
      unfolding arr2 by (rule place_at_first_vacancy [OF l1 v1 upto])
    from shifted_nth(3) [OF l1 this] show ?thesis .
  qed
  have last_slot: "arr2 = arr1" if eq: "Suc i = length array"
  proof -
    have "take (length arr1) arr2 = take (length arr1) arr1"
      using pre eq n(1) by simp
    then show ?thesis using len2 by simp
  qed
  from n(3) a2 pre next_slot last_slot show ?thesis by blast
qed

lemma place_unchanged:
  "\<forall>j<length arr. \<not> vacant_for v (arr ! j) \<Longrightarrow> place richer v arr = arr"
proof -
  assume "\<forall>j<length arr. \<not> vacant_for v (arr ! j)"
  then have "take (length arr) (place richer v arr) = take (length arr) arr"
    by (intro place_prefix) simp
  then show ?thesis by (simp add: length_place)
qed

lemma not_ahead_of_equal:
  assumes j: "j < length array" and q: "array ! j = Some q" "amount q = amount a"
      and desc: "\<forall>i k. i < k \<and> k < length array \<and> array ! k \<noteq> None
                \<longrightarrow> (\<exists>p r. array ! i = Some p \<and> array ! k = Some r \<and> amount r \<le> amount p)"
  shows "take (Suc j) (place richer a array) = take (Suc j) array"
proof (rule place_prefix, intro allI impI)
  fix k assume k: "k < Suc j" "k < length array"
  show "\<not> vacant_for a (array ! k)"
  proof (cases "k = j")
    case True
    then show ?thesis using q by (simp add: vacant_for_def richer_def)
  next
    case False
    then have "k < j" using k(1) by simp
    with desc j q(1) obtain p r where
      "array ! k = Some p" "array ! j = Some r" "amount r \<le> amount p" by blast
    then show ?thesis using q by (simp add: vacant_for_def richer_def)
  qed
qed

text \<open>
  C5. \<open>a\<close> and then \<open>b\<close>, two players with the same integer salary, are inserted into
  an array whose occupants have integer salaries. Neither insertion raises. When \<open>i\<close>
  is the first slot that is empty or holds a smaller amount, \<open>a\<close> is put at \<open>i\<close> and
  stays there when \<open>b\<close> is inserted; the slots up to \<open>i\<close> are the same before and
  after \<open>b\<close>, so \<open>b\<close> is not put ahead of \<open>a\<close>; \<open>b\<close> is put right behind \<open>a\<close>, or
  dropped when \<open>a\<close> is in the last slot. When no slot is empty or smaller, both are
  dropped. In an array in descending order, an occupant whose amount is that of the
  incoming player, and every slot before it, stay as they are.
\<close>

theorem tie_stability:
  assumes sa: "salary a = IntSalary m" and sb: "salary b = IntSalary m"
      and valid: "\<forall>q. Some q \<in> set array \<longrightarrow> is_valid q"
  shows "\<exists>arr1 arr2.
      insert_in_limited_array a salary_gt array = Inr arr1
    \<and> insert_in_limited_array b salary_gt arr1 = Inr arr2
    \<and> (\<forall>i. i < length array \<and> vacant_for a (array ! i) \<and> (\<forall>j<i. \<not> vacant_for a (array ! j))
         \<longrightarrow> arr1 ! i = Some a \<and> arr2 ! i = Some a \<and> take (Suc i) arr2 = take (Suc i) arr1
            \<and> (Suc i < length array \<longrightarrow> arr2 ! Suc i = Some b)
            \<and> (Suc i = length array \<longrightarrow> arr2 = arr1))
    \<and> ((\<forall>j<length array. \<not> vacant_for a (array ! j)) \<longrightarrow> arr1 = array \<and> arr2 = array)
    \<and> (\<forall>j q. j < length array \<and> array ! j = Some q \<and> salary q = IntSalary m
          \<and> (\<forall>i k. i < k \<and> k < length array \<and> array ! k \<noteq> None
                \<longrightarrow> (\<exists>p r. array ! i = Some p \<and> array ! k = Some r \<and> amount r \<le> amount p))
         \<longrightarrow> take (Suc j) arr1 = take (Suc j) array)"
proof -
  have va: "is_valid a" and vb: "is_valid b" and ab: "amount a = amount b" and am: "amount a = m"
    using sa sb by (simp_all add: is_valid_def amount_def)
  define arr1 where "arr1 = place richer a array"
  define arr2 where "arr2 = place richer b arr1"
  have r1: "insert_in_limited_array a salary_gt array = Inr arr1"
    unfolding arr1_def by (rule insert_valid [OF va valid])
  have valid1: "\<forall>q. Some q \<in> set arr1 \<longrightarrow> is_valid q"
    using set_place [of richer a array] valid va unfolding arr1_def by auto
  have r2: "insert_in_limited_array b salary_gt arr1 = Inr arr2"
    unfolding arr2_def by (rule insert_valid [OF vb valid1])
  have p1: "\<forall>i. i < length array \<and> vacant_for a (array ! i) \<and> (\<forall>j<i. \<not> vacant_for a (array ! j))
         \<longrightarrow> arr1 ! i = Some a \<and> arr2 ! i = Some a \<and> take (Suc i) arr2 = take (Suc i) arr1
            \<and> (Suc i < length array \<longrightarrow> arr2 ! Suc i = Some b)
            \<and> (Suc i = length array \<longrightarrow> arr2 = arr1)"
    using tie_first_then_second [OF ab _ _ _ arr1_def arr2_def] by blast
  have p2: "(\<forall>j<length array. \<not> vacant_for a (array ! j)) \<longrightarrow> arr1 = array \<and> arr2 = array"
  proof
    assume none: "\<forall>j<length array. \<not> vacant_for a (array ! j)"
    then have e1: "arr1 = array" unfolding arr1_def by (rule place_unchanged)
    from none have "\<forall>j<length array. \<not> vacant_for b (array ! j)"
      using vacant_for_same_amount [OF ab] by simp
    then have "place richer b array = array" by (rule place_unchanged)
    with e1 show "arr1 = array \<and> arr2 = array" by (simp add: arr2_def)
  qed
  have p3: "\<forall>j q. j < length array \<and> array ! j = Some q \<and> salary q = IntSalary m
          \<and> (\<forall>i k. i < k \<and> k < length array \<and> array ! k \<noteq> None
                \<longrightarrow> (\<exists>p r. array ! i = Some p \<and> array ! k = Some r \<and> amount r \<le> amount p))
         \<longrightarrow> take (Suc j) arr1 = take (Suc j) array"
  proof (intro allI impI)
    fix j q
    assume h: "j < length array \<and> array ! j = Some q \<and> salary q = IntSalary m
          \<and> (\<forall>i k. i < k \<and> k < length array \<and> array ! k \<noteq> None
                \<longrightarrow> (\<exists>p r. array ! i = Some p \<and> array ! k = Some r \<and> amount r \<le> amount p))"
    then have "amount q = amount a" using am by (simp add: amount_def)
    with h show "take (Suc j) arr1 = take (Suc j) array"
      unfolding arr1_def by (intro not_ahead_of_equal) blast+
  qed
  from r1 r2 p1 p2 p3 show ?thesis by blast
qed

theorem tie_stability_witness:
  "\<exists>arr1 arr2.
      insert_in_limited_array player_a salary_gt (Some player_top # replicate 124 None) = Inr arr1
    \<and> insert_in_limited_array player_b salary_gt arr1 = Inr arr2
    \<and> arr1 ! 1 = Some player_a \<and> arr2 ! 1 = Some player_a \<and> arr2 ! 2 = Some player_b
    \<and> take 2 arr2 = take 2 arr1"
proof -
  let ?array = "Some player_top # replicate 124 None"
  have h1: "salary player_a = IntSalary 5" "salary player_b = IntSalary 5"
    by (simp_all add: player_a_def player_b_def)
  have h2: "\<forall>q. Some q \<in> set ?array \<longrightarrow> is_valid q"
    by (simp add: is_valid_def player_top_def)
  have h3: "1 < length ?array \<and> vacant_for player_a (?array ! 1)
            \<and> (\<forall>j<1. \<not> vacant_for player_a (?array ! j))"
    by (simp add: vacant_for_def richer_def amount_def player_a_def player_top_def)
  have h4: "Suc 1 < length ?array" by simp
  from tie_stability [OF h1 h2] obtain arr1 arr2 where
    r: "insert_in_limited_array player_a salary_gt ?array = Inr arr1"
       "insert_in_limited_array player_b salary_gt arr1 = Inr arr2"
    and s: "\<forall>i. i < length ?array \<and> vacant_for player_a (?array ! i)
              \<and> (\<forall>j<i. \<not> vacant_for player_a (?array ! j))
         \<longrightarrow> arr1 ! i = Some player_a \<and> arr2 ! i = Some player_a
            \<and> take (Suc i) arr2 = take (Suc i) arr1
            \<and> (Suc i < length ?array \<longrightarrow> arr2 ! Suc i = Some player_b)
            \<and> (Suc i = length ?array \<longrightarrow> arr2 = arr1)"
    by blast
  from s h3 h4 have "arr1 ! 1 = Some player_a \<and> arr2 ! 1 = Some player_a
      \<and> take (Suc 1) arr2 = take (Suc 1) arr1 \<and> arr2 ! Suc 1 = Some player_b"
    by blast
  then have "arr1 ! 1 = Some player_a \<and> arr2 ! 1 = Some player_a \<and> arr2 ! 2 = Some player_b
    \<and> take 2 arr2 = take 2 arr1"
    by (simp add: numeral_2_eq_2)
  with r show ?thesis by blast
qed

section \<open>The average: results\<close>






section \<open>The fetch: results\<close>

text \<open>
  C7, as the code has it. \<^verbatim>\<open>crawl_page\<close> returns the page exactly when the status code is
  200; with any other status code it raises, and so does \<^verbatim>\<open>crawl_players\<close>, which then
  stores no result; an exception of the transport is passed on.
\<close>

theorem fetch_succeeds_only_on_200:
  "((\<exists>body. crawl_page (Inr page) = Inr body) \<longleftrightarrow> status_code page = 200)
   \<and> (status_code page = 200 \<longrightarrow> crawl_page (Inr page) = Inr (response_text page))
   \<and> (status_code page \<noteq> 200 \<longrightarrow>
        crawl_page (Inr page)
          = Inl (Exception ''Could not retrieve data set. Try again by running the script again.'')
        \<and> crawl_players select_rows (Inr page)
          = Inl (Exception ''Could not retrieve data set. Try again by running the script again.''))
   \<and> crawl_page (Inl e) = Inl e
   \<and> crawl_players select_rows (Inl e) = Inl e"
  by (simp add: crawl_page_def crawl_players_def)

theorem fetch_succeeds_only_on_200_witness:
  "crawl_page (Inr page_200) = Inr ''<html></html>''
   \<and> crawl_page (Inr page_404)
        = Inl (Exception ''Could not retrieve data set. Try again by running the script again.'')
   \<and> crawl_players (\<lambda>page. []) (Inr page_404)
        = Inl (Exception ''Could not retrieve data set. Try again by running the script again.'')"
proof -
  have h1: "status_code page_200 = 200" "response_text page_200 = ''<html></html>''"
    by (simp_all add: page_200_def)
  have h2: "status_code page_404 \<noteq> 200"
    by (simp add: page_404_def)
  from fetch_succeeds_only_on_200 [of page_200] h1
  have c1: "crawl_page (Inr page_200) = Inr ''<html></html>''" by simp
  from fetch_succeeds_only_on_200 [of page_404 "\<lambda>page. []"] h2
  have c2: "crawl_page (Inr page_404)
        = Inl (Exception ''Could not retrieve data set. Try again by running the script again.'')
   \<and> crawl_players (\<lambda>page. []) (Inr page_404)
        = Inl (Exception ''Could not retrieve data set. Try again by running the script again.'')"
    by blast
  from c1 c2 show ?thesis by blast
qed

text \<open>
  C7, as the claim states it, fails: the status code 204 is a 2xx code, and
  \<^verbatim>\<open>crawl_page\<close> raises on it instead of returning the body.
\<close>

theorem fetch_2xx_counterexample:
  "status_code page_204 = 204 \<and> 200 \<le> status_code page_204 \<and> status_code page_204 < 300
   \<and> crawl_page (Inr page_204)
        = Inl (Exception ''Could not retrieve data set. Try again by running the script again.'')
   \<and> crawl_page (Inr page_204) \<noteq> Inr (response_text page_204)"
  by (simp add: crawl_page_def page_204_def)

section \<open>The salary pattern: results\<close>





































section \<open>Formatting and reading back\<close>










end
